theory Spec2Isabelle
  imports Complex_Main
begin

section \<open>Python primitives used by the simulator\<close>

text \<open>
  The simulator is Python: integers are unbounded (\<open>int\<close>), \<open>//\<close> and \<open>%\<close> round towards
  minus infinity (as \<open>div\<close> and \<open>mod\<close> on \<open>int\<close> do) and raise on a zero divisor, list
  operations raise when an element or a position is missing. Every raise is a value
  \<open>Inl e\<close> of the result.
\<close>

datatype error = ZeroDivisionError | IndexError | ValueError

definition floordiv :: "int \<Rightarrow> int \<Rightarrow> error + int" where
  "floordiv a b = (if b = 0 then Inl ZeroDivisionError else Inr (a div b))"

definition modulo :: "int \<Rightarrow> int \<Rightarrow> error + int" where
  "modulo a b = (if b = 0 then Inl ZeroDivisionError else Inr (a mod b))"

text \<open>
  A position given to \<open>xs[i]\<close>, \<open>xs[i] = v\<close> or \<open>xs.pop(i)\<close>: positions from
  \<open>-len(xs)\<close> to \<open>-1\<close> count from the end, anything outside \<open>[-len(xs), len(xs))\<close>
  raises.
\<close>

definition list_index :: "'a list \<Rightarrow> int \<Rightarrow> error + nat" where
  "list_index xs i =
     (if 0 \<le> i \<and> i < int (length xs) then Inr (nat i)
      else if i < 0 \<and> - int (length xs) \<le> i then Inr (nat (int (length xs) + i))
      else Inl IndexError)"

text \<open>\<open>xs[i]\<close>; the resolved position is returned with the element, since the caller
  mutates the element in place.\<close>

definition list_getitem :: "'a list \<Rightarrow> int \<Rightarrow> error + (nat \<times> 'a)" where
  "list_getitem xs i =
     (case list_index xs i of Inl e \<Rightarrow> Inl e | Inr j \<Rightarrow> Inr (j, xs ! j))"

text \<open>\<open>xs[i] = v\<close>.\<close>

definition list_setitem :: "'a list \<Rightarrow> int \<Rightarrow> 'a \<Rightarrow> error + 'a list" where
  "list_setitem xs i v =
     (case list_index xs i of Inl e \<Rightarrow> Inl e | Inr j \<Rightarrow> Inr (xs[j := v]))"

text \<open>\<open>xs.remove(x)\<close> deletes the first occurrence and raises when there is none.\<close>

fun list_remove :: "'a list \<Rightarrow> 'a \<Rightarrow> error + 'a list" where
  "list_remove [] x = Inl ValueError"
| "list_remove (y # ys) x =
     (if y = x then Inr ys
      else case list_remove ys x of Inl e \<Rightarrow> Inl e | Inr zs \<Rightarrow> Inr (y # zs))"

text \<open>\<open>xs.pop(i)\<close> returns the element at position \<open>i\<close> and the list without it.\<close>

definition list_pop :: "'a list \<Rightarrow> int \<Rightarrow> error + ('a \<times> 'a list)" where
  "list_pop xs i =
     (case list_index xs i of
        Inl e \<Rightarrow> Inl e
      | Inr j \<Rightarrow> Inr (xs ! j, take j xs @ drop (Suc j) xs))"

text \<open>
  \<open>random.randint(a, b)\<close> raises on an empty range and otherwise returns a member of
  \<open>[a, b]\<close>. A generator is the sequence of raw draws it is going to produce; as it ranges
  over all sequences, the result ranges over every member of the range.
\<close>

type_synonym generator = "nat \<Rightarrow> nat"

definition randint :: "generator \<Rightarrow> int \<Rightarrow> int \<Rightarrow> error + (int \<times> generator)" where
  "randint g a b =
     (if b < a then Inl ValueError
      else Inr (a + int (g 0) mod (b - a + 1), \<lambda>n. g (Suc n)))"

text \<open>
  \<open>s.upper()\<close> on the selector strings, which are modelled as byte strings: the letters
  \<open>a\<close> to \<open>z\<close> are raised, every other byte is kept.
\<close>

definition char_upper :: "char \<Rightarrow> char" where
  "char_upper c =
     (case map_of (zip ''abcdefghijklmnopqrstuvwxyz'' ''ABCDEFGHIJKLMNOPQRSTUVWXYZ'') c of
        None \<Rightarrow> c
      | Some u \<Rightarrow> u)"

definition upper :: "string \<Rightarrow> string" where
  "upper s = map char_upper s"

text \<open>
  \<open>print\<close> writes a line to the console. A line is kept as the values its format string
  interpolates, in the order of the calls.
\<close>

datatype console_line =
    ConfigLine int int int
  | DerivedLine int int
  | AddressLine int int int int
  | UnknownPolicyLine
  | CacheReadyLine string int
  | AccessLine int int int

section \<open>cache\_config.py\<close>

record CacheConfig =
  cache_size_kb :: int
  block_size_bytes :: int
  associativity :: int
  cache_size_bytes :: int
  num_blocks :: int
  num_sets :: int

definition CacheConfig_init ::
  "int \<Rightarrow> int \<Rightarrow> int \<Rightarrow> error + (CacheConfig \<times> console_line list)" where
  "CacheConfig_init kb bs assoc =
     (let csb = kb * 1024 in
      case floordiv csb bs of
        Inl e \<Rightarrow> Inl e
      | Inr nb \<Rightarrow>
          (case (if assoc = 0 then Inr 1 else floordiv nb assoc) of
             Inl e \<Rightarrow> Inl e
           | Inr ns \<Rightarrow>
               Inr (\<lparr>cache_size_kb = kb, block_size_bytes = bs, associativity = assoc,
                     cache_size_bytes = csb, num_blocks = nb, num_sets = ns\<rparr>,
                    [ConfigLine kb bs assoc, DerivedLine nb ns])))"

definition get_address_breakdown ::
  "CacheConfig \<Rightarrow> int \<Rightarrow> error + ((int \<times> int) \<times> console_line list)" where
  "get_address_breakdown cfg address =
     (case floordiv address (block_size_bytes cfg) of
        Inl e \<Rightarrow> Inl e
      | Inr block_number \<Rightarrow>
          (case modulo block_number (num_sets cfg) of
             Inl e \<Rightarrow> Inl e
           | Inr set_index \<Rightarrow>
               (case floordiv block_number (num_sets cfg) of
                  Inl e \<Rightarrow> Inl e
                | Inr tag \<Rightarrow>
                    Inr ((set_index, tag),
                         [AddressLine address block_number set_index tag]))))"

text \<open>
  The configurations the specification calls valid, in the constructor's arguments (the
  size in bytes is \<open>cache_size_kb * 1024\<close>): a positive block size, a positive size that is
  a multiple of the block size, and an associativity that is either the fully-associative
  sentinel \<open>0\<close> or between one and the number of blocks.
\<close>

definition valid_config :: "int \<Rightarrow> int \<Rightarrow> int \<Rightarrow> bool" where
  "valid_config kb bs assoc \<longleftrightarrow>
     0 < bs \<and> 0 < kb * 1024 \<and> bs dvd kb * 1024 \<and>
     (assoc = 0 \<or> (1 \<le> assoc \<and> assoc \<le> kb * 1024 div bs))"

section \<open>replacement\_policies.py\<close>

datatype result = HIT | MISS

text \<open>
  The three classes. \<open>RandomPolicy\<close> keeps the generator it draws from
  (\<open>self.random\<close>).
\<close>

datatype policy_class = LRUPolicy | FIFOPolicy | RandomPolicy "generator"

record ReplacementPolicy =
  policy_class :: policy_class
  name :: string
  p_accesses :: int
  p_hits :: int

definition ReplacementPolicy_init :: "policy_class \<Rightarrow> string \<Rightarrow> ReplacementPolicy" where
  "ReplacementPolicy_init k n = \<lparr>policy_class = k, name = n, p_accesses = 0, p_hits = 0\<rparr>"

definition LRUPolicy_init :: ReplacementPolicy where
  "LRUPolicy_init = ReplacementPolicy_init LRUPolicy ''LRU''"

definition FIFOPolicy_init :: ReplacementPolicy where
  "FIFOPolicy_init = ReplacementPolicy_init FIFOPolicy ''FIFO''"

definition RandomPolicy_init :: "generator \<Rightarrow> ReplacementPolicy" where
  "RandomPolicy_init g = ReplacementPolicy_init (RandomPolicy g) ''Random''"

text \<open>The base class's \<open>access\<close> counts the call; \<open>count_hit\<close> is
  \<open>self.stats["hits"] += 1\<close>.\<close>

definition ReplacementPolicy_access :: "ReplacementPolicy \<Rightarrow> ReplacementPolicy" where
  "ReplacementPolicy_access p = p\<lparr>p_accesses := p_accesses p + 1\<rparr>"

definition count_hit :: "ReplacementPolicy \<Rightarrow> ReplacementPolicy" where
  "count_hit p = p\<lparr>p_hits := p_hits p + 1\<rparr>"

text \<open>
  Each \<open>access\<close> mutates the list \<open>blocks\<close> and the policy object; the model returns the
  pair \<open>(result, replaced)\<close> together with the new list and the new policy.
\<close>

type_synonym 'a decision = "error + ((result \<times> 'a option) \<times> 'a list \<times> ReplacementPolicy)"

definition LRUPolicy_access ::
  "ReplacementPolicy \<Rightarrow> 'a list \<Rightarrow> 'a \<Rightarrow> int \<Rightarrow> 'a decision" where
  "LRUPolicy_access p0 blocks tag assoc =
     (let p = ReplacementPolicy_access p0 in
      if tag \<in> set blocks then
        (case list_remove blocks tag of
           Inl e \<Rightarrow> Inl e
         | Inr bs \<Rightarrow> Inr ((HIT, None), bs @ [tag], count_hit p))
      else if int (length blocks) < assoc then
        Inr ((MISS, None), blocks @ [tag], p)
      else
        (case list_pop blocks 0 of
           Inl e \<Rightarrow> Inl e
         | Inr (replaced, bs) \<Rightarrow> Inr ((MISS, Some replaced), bs @ [tag], p)))"

definition FIFOPolicy_access ::
  "ReplacementPolicy \<Rightarrow> 'a list \<Rightarrow> 'a \<Rightarrow> int \<Rightarrow> 'a decision" where
  "FIFOPolicy_access p0 blocks tag assoc =
     (let p = ReplacementPolicy_access p0 in
      if tag \<in> set blocks then
        Inr ((HIT, None), blocks, count_hit p)
      else if int (length blocks) < assoc then
        Inr ((MISS, None), blocks @ [tag], p)
      else
        (case list_pop blocks 0 of
           Inl e \<Rightarrow> Inl e
         | Inr (replaced, bs) \<Rightarrow> Inr ((MISS, Some replaced), bs @ [tag], p)))"

definition RandomPolicy_access ::
  "ReplacementPolicy \<Rightarrow> generator \<Rightarrow> 'a list \<Rightarrow> 'a \<Rightarrow> int \<Rightarrow> 'a decision" where
  "RandomPolicy_access p0 g blocks tag assoc =
     (let p = ReplacementPolicy_access p0 in
      if tag \<in> set blocks then
        Inr ((HIT, None), blocks, count_hit p)
      else if int (length blocks) < assoc then
        Inr ((MISS, None), blocks @ [tag], p)
      else
        (case randint g 0 (int (length blocks) - 1) of
           Inl e \<Rightarrow> Inl e
         | Inr (index, g') \<Rightarrow>
             (case list_getitem blocks index of
                Inl e \<Rightarrow> Inl e
              | Inr (j, replaced) \<Rightarrow>
                  (case list_setitem blocks index tag of
                     Inl e \<Rightarrow> Inl e
                   | Inr bs \<Rightarrow>
                       Inr ((MISS, Some replaced), bs,
                            p\<lparr>policy_class := RandomPolicy g'\<rparr>)))))"

text \<open>\<open>policy.access(...)\<close>: the call is dispatched on the object's class.\<close>

definition policy_access ::
  "ReplacementPolicy \<Rightarrow> 'a list \<Rightarrow> 'a \<Rightarrow> int \<Rightarrow> 'a decision" where
  "policy_access p blocks tag assoc =
     (case policy_class p of
        LRUPolicy \<Rightarrow> LRUPolicy_access p blocks tag assoc
      | FIFOPolicy \<Rightarrow> FIFOPolicy_access p blocks tag assoc
      | RandomPolicy g \<Rightarrow> RandomPolicy_access p g blocks tag assoc)"

text \<open>A sequence of lookups on one set, as a caller's loop issues them; it stops at the
  first error.\<close>

fun access_tags ::
  "ReplacementPolicy \<Rightarrow> 'a list \<Rightarrow> 'a list \<Rightarrow> int
     \<Rightarrow> error + (result list \<times> 'a list \<times> ReplacementPolicy)" where
  "access_tags p blocks [] assoc = Inr ([], blocks, p)"
| "access_tags p blocks (tag # tags) assoc =
     (case policy_access p blocks tag assoc of
        Inl e \<Rightarrow> Inl e
      | Inr ((r, replaced), blocks', p') \<Rightarrow>
          (case access_tags p' blocks' tags assoc of
             Inl e \<Rightarrow> Inl e
           | Inr (rs, blocks'', p'') \<Rightarrow> Inr (r # rs, blocks'', p'')))"

section \<open>cache.py\<close>

record CacheStats =
  accesses :: int
  hits :: int
  misses :: int
  replacements :: int

record LogEntry =
  log_address :: int
  log_set :: int
  log_result :: result

text \<open>
  \<open>sets\<close> is built by a list comprehension, so every set is a list object of its own and
  a list of lists by value models it.
\<close>

record Cache =
  config :: CacheConfig
  stats :: CacheStats
  sets :: "int list list"
  policy :: ReplacementPolicy
  debug_mode :: bool
  access_log :: "LogEntry list"

definition setup_policy ::
  "string \<Rightarrow> generator \<Rightarrow> ReplacementPolicy \<times> console_line list" where
  "setup_policy policy_name g =
     (let policy_name = upper policy_name in
      if policy_name = ''LRU'' then (LRUPolicy_init, [])
      else if policy_name = ''FIFO'' then (FIFOPolicy_init, [])
      else if policy_name = ''RANDOM'' then (RandomPolicy_init g, [])
      else (LRUPolicy_init, [UnknownPolicyLine]))"

text \<open>\<open>Cache(config, policy_name)\<close>; \<open>g\<close> is the generator a \<open>RandomPolicy\<close> will draw
  from.\<close>

definition Cache_init ::
  "CacheConfig \<Rightarrow> string \<Rightarrow> generator \<Rightarrow> Cache \<times> console_line list" where
  "Cache_init cfg policy_name g =
     (case setup_policy policy_name g of
        (p, out) \<Rightarrow>
          (\<lparr>config = cfg,
            stats = \<lparr>accesses = 0, hits = 0, misses = 0, replacements = 0\<rparr>,
            sets = replicate (nat (num_sets cfg)) [],
            policy = p,
            debug_mode = False,
            access_log = []\<rparr>,
           out @ [CacheReadyLine policy_name (num_sets cfg)]))"

definition get_set_index :: "Cache \<Rightarrow> int \<Rightarrow> error + int" where
  "get_set_index c address =
     (case floordiv address (block_size_bytes (config c)) of
        Inl e \<Rightarrow> Inl e
      | Inr block_num \<Rightarrow> modulo block_num (num_sets (config c)))"

definition get_tag :: "Cache \<Rightarrow> int \<Rightarrow> error + int" where
  "get_tag c address =
     (case floordiv address (block_size_bytes (config c)) of
        Inl e \<Rightarrow> Inl e
      | Inr block_num \<Rightarrow> floordiv block_num (num_sets (config c)))"

text \<open>The bookkeeping of \<open>access\<close> after the policy has answered.\<close>

definition track :: "CacheStats \<Rightarrow> result \<Rightarrow> int option \<Rightarrow> CacheStats" where
  "track st r replaced =
     (if r = HIT then st\<lparr>hits := hits st + 1\<rparr>
      else (let st' = st\<lparr>misses := misses st + 1\<rparr> in
            if replaced \<noteq> None then st'\<lparr>replacements := replacements st' + 1\<rparr> else st'))"

definition log_access :: "LogEntry list \<Rightarrow> int \<Rightarrow> int \<Rightarrow> result \<Rightarrow> LogEntry list" where
  "log_access lg address set_index r =
     (if length lg < 1000
      then lg @ [\<lparr>log_address = address, log_set = set_index, log_result = r\<rparr>]
      else lg)"

definition access :: "Cache \<Rightarrow> int \<Rightarrow> error + (result \<times> Cache \<times> console_line list)" where
  "access c0 address =
     (let c = c0\<lparr>stats := (stats c0)\<lparr>accesses := accesses (stats c0) + 1\<rparr>\<rparr> in
      case get_set_index c address of
        Inl e \<Rightarrow> Inl e
      | Inr set_index \<Rightarrow>
      (case get_tag c address of
        Inl e \<Rightarrow> Inl e
      | Inr tag \<Rightarrow>
      (let out = (if debug_mode c then [AccessLine address set_index tag] else []) in
       case list_getitem (sets c) set_index of
        Inl e \<Rightarrow> Inl e
      | Inr (j, blocks) \<Rightarrow>
      (case policy_access (policy c) blocks tag (associativity (config c)) of
        Inl e \<Rightarrow> Inl e
      | Inr ((r, replaced), blocks', p') \<Rightarrow>
          Inr (r,
               c\<lparr>sets := (sets c)[j := blocks'],
                 policy := p',
                 stats := track (stats c) r replaced,
                 access_log := log_access (access_log c) address set_index r\<rparr>,
               out)))))"



text \<open>A trace fed to the cache, as the experiments' loops do
  (\<open>for address in trace: cache.access(address)\<close>); an exception ends the run.\<close>

fun access_all :: "Cache \<Rightarrow> int list \<Rightarrow> error + (result list \<times> Cache)" where
  "access_all c [] = Inr ([], c)"
| "access_all c (a # as) =
     (case access c a of
        Inl e \<Rightarrow> Inl e
      | Inr (r, c', out) \<Rightarrow>
          (case access_all c' as of
             Inl e \<Rightarrow> Inl e
           | Inr (rs, c'') \<Rightarrow> Inr (r # rs, c'')))"

section \<open>Observations used in the statements\<close>

text \<open>What the caller of a method sees: the exception, or the returned value without
  the new state.\<close>

definition returned :: "error + ('a \<times> 'b) \<Rightarrow> error + 'a" where
  "returned r = (case r of Inl e \<Rightarrow> Inl e | Inr (v, s) \<Rightarrow> Inr v)"

text \<open>A generator whose every raw draw is \<open>k\<close>.\<close>

definition constant_generator :: "nat \<Rightarrow> generator" where
  "constant_generator k = (\<lambda>n. k)"

text \<open>
  The callers' script (\<open>config = CacheConfig(...)\<close>, \<open>cache = Cache(config, policy_name)\<close>,
  then the loop over a trace), with the console output dropped.
\<close>

definition new_cache :: "int \<Rightarrow> int \<Rightarrow> int \<Rightarrow> string \<Rightarrow> generator \<Rightarrow> error + Cache" where
  "new_cache kb bs assoc policy_name g =
     (case CacheConfig_init kb bs assoc of
        Inl e \<Rightarrow> Inl e
      | Inr (cfg, out) \<Rightarrow> Inr (fst (Cache_init cfg policy_name g)))"

definition simulate ::
  "int \<Rightarrow> int \<Rightarrow> int \<Rightarrow> string \<Rightarrow> generator \<Rightarrow> int list \<Rightarrow> error + (result list \<times> Cache)" where
  "simulate kb bs assoc policy_name g trace =
     (case new_cache kb bs assoc policy_name g of
        Inl e \<Rightarrow> Inl e
      | Inr c \<Rightarrow> access_all c trace)"

text \<open>
  The shape every cache built from a valid configuration has and keeps: a block size and
  a number of sets that can be divided by, and as many sets as the configuration says.
\<close>

definition well_formed :: "Cache \<Rightarrow> bool" where
  "well_formed c \<longleftrightarrow>
     block_size_bytes (config c) \<noteq> 0 \<and> 1 \<le> num_sets (config c) \<and>
     length (sets c) = nat (num_sets (config c))"

text \<open>The part of \<open>access\<close> before the policy is called: the position of the targeted
  set in \<open>sets\<close>, its contents, and the tag.\<close>

definition lookup :: "Cache \<Rightarrow> int \<Rightarrow> error + (nat \<times> int list \<times> int)" where
  "lookup c address =
     (case get_set_index c address of
        Inl e \<Rightarrow> Inl e
      | Inr set_index \<Rightarrow>
          (case get_tag c address of
             Inl e \<Rightarrow> Inl e
           | Inr tag \<Rightarrow>
               (case list_getitem (sets c) set_index of
                  Inl e \<Rightarrow> Inl e
                | Inr (j, blocks) \<Rightarrow> Inr (j, blocks, tag))))"

text \<open>Whether the targeted set has spare capacity when the access arrives, and the
  evicted tag the policy reports on that access.\<close>

definition had_spare_capacity :: "Cache \<Rightarrow> int \<Rightarrow> bool" where
  "had_spare_capacity c address =
     (case lookup c address of
        Inl e \<Rightarrow> False
      | Inr (j, blocks, tag) \<Rightarrow> int (length blocks) < associativity (config c))"

definition evicted :: "Cache \<Rightarrow> int \<Rightarrow> int option" where
  "evicted c address =
     (case lookup c address of
        Inl e \<Rightarrow> None
      | Inr (j, blocks, tag) \<Rightarrow>
          (case policy_access (policy c) blocks tag (associativity (config c)) of
             Inl e \<Rightarrow> None
           | Inr ((r, replaced), blocks', p') \<Rightarrow> replaced))"

text \<open>Along a run: the misses that found spare capacity in their set, and the accesses
  on which the policy reported an evicted tag.\<close>

fun spare_capacity_misses :: "Cache \<Rightarrow> int list \<Rightarrow> int" where
  "spare_capacity_misses c [] = 0"
| "spare_capacity_misses c (a # as) =
     (case access c a of
        Inl e \<Rightarrow> 0
      | Inr (r, c', out) \<Rightarrow>
          (if r = MISS \<and> had_spare_capacity c a then 1 else 0) + spare_capacity_misses c' as)"

fun evictions :: "Cache \<Rightarrow> int list \<Rightarrow> int" where
  "evictions c [] = 0"
| "evictions c (a # as) =
     (case access c a of
        Inl e \<Rightarrow> 0
      | Inr (r, c', out) \<Rightarrow>
          (if evicted c a \<noteq> None then 1 else 0) + evictions c' as)"

text \<open>Every set holds at most \<open>associativity\<close> tags, pairwise distinct.\<close>

definition sets_bounded_distinct :: "Cache \<Rightarrow> bool" where
  "sets_bounded_distinct c \<longleftrightarrow>
     (\<forall>blocks \<in> set (sets c).
        int (length blocks) \<le> associativity (config c) \<and> distinct blocks)"

text \<open>The lines a call has printed.\<close>

definition printed :: "error + ('a \<times> console_line list) \<Rightarrow> console_line list" where
  "printed r = (case r of Inl e \<Rightarrow> [] | Inr (v, out) \<Rightarrow> out)"

text \<open>The pair \<open>(set_index, tag)\<close> as \<open>Cache.access\<close> derives it.\<close>

definition cache_breakdown :: "Cache \<Rightarrow> int \<Rightarrow> error + (int \<times> int)" where
  "cache_breakdown c address =
     (case get_set_index c address of
        Inl e \<Rightarrow> Inl e
      | Inr set_index \<Rightarrow>
          (case get_tag c address of
             Inl e \<Rightarrow> Inl e
           | Inr tag \<Rightarrow> Inr (set_index, tag)))"




section \<open>Properties\<close>

subsection \<open>Evaluation on concrete inputs\<close>

lemmas eval_defs = simulate_def new_cache_def CacheConfig_init_def floordiv_def modulo_def
  Cache_init_def setup_policy_def upper_def char_upper_def LRUPolicy_init_def FIFOPolicy_init_def RandomPolicy_init_def
  ReplacementPolicy_init_def access_def get_set_index_def get_tag_def list_getitem_def
  policy_access_def LRUPolicy_access_def FIFOPolicy_access_def RandomPolicy_access_def
  ReplacementPolicy_access_def count_hit_def list_index_def list_pop_def list_setitem_def randint_def
  track_def log_access_def returned_def constant_generator_def Let_def

subsection \<open>List primitives\<close>

lemma list_remove_split:
  "x \<notin> set xs \<Longrightarrow> list_remove (xs @ x # ys) x = Inr (xs @ ys)"
  by (induction xs) auto

lemma list_pop_head: "list_pop (b # bs) 0 = Inr (b, bs)"
  by (simp add: list_pop_def list_index_def)

lemma list_pop_empty: "list_pop [] i = Inl IndexError"
  by (simp add: list_pop_def list_index_def)

subsection \<open>Configuration\<close>

lemma CacheConfig_init_nonzero:
  "bs \<noteq> 0 \<Longrightarrow>
   CacheConfig_init kb bs assoc =
     Inr (\<lparr>cache_size_kb = kb, block_size_bytes = bs, associativity = assoc,
           cache_size_bytes = kb * 1024, num_blocks = kb * 1024 div bs,
           num_sets = (if assoc = 0 then 1 else kb * 1024 div bs div assoc)\<rparr>,
          [ConfigLine kb bs assoc,
           DerivedLine (kb * 1024 div bs)
             (if assoc = 0 then 1 else kb * 1024 div bs div assoc)])"
  by (simp add: CacheConfig_init_def floordiv_def Let_def)

lemma CacheConfig_init_zero: "CacheConfig_init kb 0 assoc = Inl ZeroDivisionError"
  by (simp add: CacheConfig_init_def floordiv_def)

text \<open>
  C6. For every valid configuration the constructor returns a configuration with at least
  one set; with the fully-associative sentinel \<open>0\<close> there is exactly one set, otherwise
  \<open>num_sets = num_blocks div associativity\<close>, where
  \<open>num_blocks = cache_size_bytes div block_size_bytes\<close>.
\<close>

theorem num_sets_of_valid_config:
  assumes "valid_config kb bs assoc"
  shows "\<exists>cfg out. CacheConfig_init kb bs assoc = Inr (cfg, out) \<and>
           1 \<le> num_sets cfg \<and>
           (assoc = 0 \<longrightarrow> num_sets cfg = 1) \<and>
           (assoc \<noteq> 0 \<longrightarrow> num_sets cfg = num_blocks cfg div assoc) \<and>
           num_blocks cfg = cache_size_bytes cfg div block_size_bytes cfg \<and>
           cache_size_bytes cfg = kb * 1024 \<and> block_size_bytes cfg = bs \<and>
           associativity cfg = assoc"
proof (cases "assoc = 0")
  case True
  with assms show ?thesis
    by (simp add: valid_config_def CacheConfig_init_nonzero)
next
  case False
  with assms have a: "0 < assoc" "assoc \<le> kb * 1024 div bs" "bs \<noteq> 0"
    by (auto simp: valid_config_def)
  then have "0 < kb * 1024 div bs div assoc"
    by (simp add: pos_imp_zdiv_pos_iff)
  with False a show ?thesis
    by (simp add: CacheConfig_init_nonzero)
qed

theorem num_sets_of_valid_config_witness:
  "valid_config 8 64 2 \<and> valid_config 8 64 0 \<and>
   (\<exists>cfg out. CacheConfig_init 8 64 2 = Inr (cfg, out) \<and> 1 \<le> num_sets cfg \<and>
      num_sets cfg = num_blocks cfg div 2 \<and> num_blocks cfg = cache_size_bytes cfg div 64) \<and>
   (\<exists>cfg out. CacheConfig_init 8 64 0 = Inr (cfg, out) \<and> num_sets cfg = 1)"
proof -
  have v: "valid_config 8 64 2" and w: "valid_config 8 64 0"
    by (simp_all add: valid_config_def)
  from num_sets_of_valid_config [OF v] num_sets_of_valid_config [OF w] show ?thesis
    using v w by auto
qed

subsection \<open>Replacement policies\<close>

text \<open>
  C3. \<open>LRUPolicy.access\<close>: on a hit the tag leaves its position and is appended, nothing
  is evicted; on a miss with spare capacity the tag is appended, nothing is evicted; on a
  miss at capacity the element at position 0 is removed and reported as evicted and the
  tag is appended. On a 2-way set that starts empty, distinct tags \<open>A, B, C\<close> looked up as
  \<open>[A, B, A, C]\<close> give \<open>[MISS, MISS, HIT, MISS]\<close> and leave exactly \<open>A\<close> and \<open>C\<close> resident.
  (A set with no element at position 0 that counts as full, which needs a capacity of at
  most zero, is the subject of C1.)
\<close>

theorem LRU_decide:
  "(tag \<notin> set xs \<longrightarrow>
      LRUPolicy_access p (xs @ tag # ys) tag cap =
        Inr ((HIT, None), xs @ ys @ [tag], count_hit (ReplacementPolicy_access p))) \<and>
   (tag \<notin> set blocks \<and> int (length blocks) < cap \<longrightarrow>
      LRUPolicy_access p blocks tag cap =
        Inr ((MISS, None), blocks @ [tag], ReplacementPolicy_access p)) \<and>
   (tag \<notin> set (b # bs) \<and> cap \<le> int (length (b # bs)) \<longrightarrow>
      LRUPolicy_access p (b # bs) tag cap =
        Inr ((MISS, Some b), bs @ [tag], ReplacementPolicy_access p)) \<and>
   (distinct [A, B, C] \<longrightarrow>
      (\<exists>resident p'. access_tags LRUPolicy_init [] [A, B, A, C] 2 =
                        Inr ([MISS, MISS, HIT, MISS], resident, p') \<and>
                     set resident = {A, C}))"
proof (intro conjI impI)
  assume "tag \<notin> set xs"
  then show "LRUPolicy_access p (xs @ tag # ys) tag cap =
        Inr ((HIT, None), xs @ ys @ [tag], count_hit (ReplacementPolicy_access p))"
    by (simp add: LRUPolicy_access_def list_remove_split)
next
  assume "tag \<notin> set blocks \<and> int (length blocks) < cap"
  then show "LRUPolicy_access p blocks tag cap =
        Inr ((MISS, None), blocks @ [tag], ReplacementPolicy_access p)"
    by (simp add: LRUPolicy_access_def)
next
  assume "tag \<notin> set (b # bs) \<and> cap \<le> int (length (b # bs))"
  then show "LRUPolicy_access p (b # bs) tag cap =
        Inr ((MISS, Some b), bs @ [tag], ReplacementPolicy_access p)"
    by (simp add: LRUPolicy_access_def list_pop_head Let_def)
next
  assume "distinct [A, B, C]"
  then have "access_tags LRUPolicy_init [] [A, B, A, C] 2 =
     Inr ([MISS, MISS, HIT, MISS], [A, C],
          count_hit ((ReplacementPolicy_access ^^ 4) LRUPolicy_init))"
    by (auto simp: policy_access_def LRUPolicy_access_def LRUPolicy_init_def
          ReplacementPolicy_init_def ReplacementPolicy_access_def count_hit_def
          list_pop_head Let_def numeral_eq_Suc)
  then show "\<exists>resident p'. access_tags LRUPolicy_init [] [A, B, A, C] 2 =
                        Inr ([MISS, MISS, HIT, MISS], resident, p') \<and>
                     set resident = {A, C}"
    by simp
qed

theorem LRU_decide_witness:
  "(3::int) \<notin> set [1] \<and>
   returned (LRUPolicy_access LRUPolicy_init [1, 3, 2] (3::int) 2) = Inr (HIT, None) \<and>
   int (length [1::int]) < 2 \<and>
   returned (LRUPolicy_access LRUPolicy_init [1] (3::int) 2) = Inr (MISS, None) \<and>
   2 \<le> int (length [1::int, 2]) \<and>
   LRUPolicy_access LRUPolicy_init [1, 2] (3::int) 2 =
     Inr ((MISS, Some 1), [2, 3], ReplacementPolicy_access LRUPolicy_init) \<and>
   distinct [1::int, 2, 3] \<and>
   (\<exists>resident p'. access_tags LRUPolicy_init [] [1, 2, 1, 3::int] 2 =
                     Inr ([MISS, MISS, HIT, MISS], resident, p') \<and>
                  set resident = {1, 3})"
  using LRU_decide [where tag = "3::int" and xs = "[1]" and ys = "[2]" and p = LRUPolicy_init
      and cap = 2 and blocks = "[1]" and b = 1 and bs = "[2]"
      and A = "1::int" and B = 2 and C = 3]
  by (simp add: returned_def)

text \<open>
  C4. \<open>FIFOPolicy.access\<close>: a hit leaves the set as it is and evicts nothing; a miss with
  spare capacity appends the tag and evicts nothing; a miss at capacity removes position 0
  (the first inserted), reports it as evicted and appends the tag. On a 2-way set that
  starts empty, distinct tags \<open>A, B, C\<close> looked up as \<open>[A, B, A, C]\<close> give
  \<open>[MISS, MISS, HIT, MISS]\<close> and leave exactly \<open>B\<close> and \<open>C\<close> resident: the hit on \<open>A\<close> did
  not save it.
\<close>

theorem FIFO_decide:
  "(tag \<in> set blocks \<longrightarrow>
      FIFOPolicy_access p blocks tag cap =
        Inr ((HIT, None), blocks, count_hit (ReplacementPolicy_access p))) \<and>
   (tag \<notin> set blocks \<and> int (length blocks) < cap \<longrightarrow>
      FIFOPolicy_access p blocks tag cap =
        Inr ((MISS, None), blocks @ [tag], ReplacementPolicy_access p)) \<and>
   (tag \<notin> set (b # bs) \<and> cap \<le> int (length (b # bs)) \<longrightarrow>
      FIFOPolicy_access p (b # bs) tag cap =
        Inr ((MISS, Some b), bs @ [tag], ReplacementPolicy_access p)) \<and>
   (distinct [A, B, C] \<longrightarrow>
      (\<exists>resident p'. access_tags FIFOPolicy_init [] [A, B, A, C] 2 =
                        Inr ([MISS, MISS, HIT, MISS], resident, p') \<and>
                     set resident = {B, C}))"
proof (intro conjI impI)
  assume "tag \<in> set blocks"
  then show "FIFOPolicy_access p blocks tag cap =
        Inr ((HIT, None), blocks, count_hit (ReplacementPolicy_access p))"
    by (simp add: FIFOPolicy_access_def)
next
  assume "tag \<notin> set blocks \<and> int (length blocks) < cap"
  then show "FIFOPolicy_access p blocks tag cap =
        Inr ((MISS, None), blocks @ [tag], ReplacementPolicy_access p)"
    by (simp add: FIFOPolicy_access_def)
next
  assume "tag \<notin> set (b # bs) \<and> cap \<le> int (length (b # bs))"
  then show "FIFOPolicy_access p (b # bs) tag cap =
        Inr ((MISS, Some b), bs @ [tag], ReplacementPolicy_access p)"
    by (simp add: FIFOPolicy_access_def list_pop_head Let_def)
next
  assume "distinct [A, B, C]"
  then have "access_tags FIFOPolicy_init [] [A, B, A, C] 2 =
     Inr ([MISS, MISS, HIT, MISS], [B, C],
          count_hit ((ReplacementPolicy_access ^^ 4) FIFOPolicy_init))"
    by (auto simp: policy_access_def FIFOPolicy_access_def FIFOPolicy_init_def
          ReplacementPolicy_init_def ReplacementPolicy_access_def count_hit_def
          list_pop_head Let_def numeral_eq_Suc)
  then show "\<exists>resident p'. access_tags FIFOPolicy_init [] [A, B, A, C] 2 =
                        Inr ([MISS, MISS, HIT, MISS], resident, p') \<and>
                     set resident = {B, C}"
    by simp
qed

theorem FIFO_decide_witness:
  "(3::int) \<in> set [1, 3] \<and>
   FIFOPolicy_access FIFOPolicy_init [1, 3] (3::int) 2 =
     Inr ((HIT, None), [1, 3], count_hit (ReplacementPolicy_access FIFOPolicy_init)) \<and>
   (4::int) \<notin> set [1] \<and> int (length [1::int]) < 2 \<and>
   returned (FIFOPolicy_access FIFOPolicy_init [1] (4::int) 2) = Inr (MISS, None) \<and>
   2 \<le> int (length [1::int, 2]) \<and>
   FIFOPolicy_access FIFOPolicy_init [1, 2] (4::int) 2 =
     Inr ((MISS, Some 1), [2, 4], ReplacementPolicy_access FIFOPolicy_init) \<and>
   distinct [1::int, 2, 3] \<and>
   (\<exists>resident p'. access_tags FIFOPolicy_init [] [1, 2, 1, 3::int] 2 =
                     Inr ([MISS, MISS, HIT, MISS], resident, p') \<and>
                  set resident = {2, 3})"
  using FIFO_decide [where tag = "3::int" and p = FIFOPolicy_init
      and cap = 2 and blocks = "[1, 3]" and b = 1 and bs = "[2]"
      and A = "1::int" and B = 2 and C = 3]
    FIFO_decide [where tag = "4::int" and p = FIFOPolicy_init
      and cap = 2 and blocks = "[1]" and b = 1 and bs = "[2]"
      and A = "1::int" and B = 2 and C = 3]
  by (simp add: returned_def)

subsection \<open>The fully-associative sentinel\<close>

text \<open>
  C1. \<open>Cache.access\<close> on a cache built from a valid configuration is meant to return
  \<open>HIT\<close> or \<open>MISS\<close>. With the fully-associative sentinel \<open>associativity = 0\<close> it does
  not: the sentinel itself is handed to the policy as the capacity of the set, the empty
  set counts as full, and the very first access raises, from \<open>blocks.pop(0)\<close> under LRU
  and FIFO and from \<open>randint(0, -1)\<close> under Random. (Lemma \<open>sentinel_access_fails\<close> below
  shows the same for every cache built with the sentinel and every address; lemma
  \<open>access_total\<close> shows that with \<open>associativity \<ge> 1\<close> the access does return.)
\<close>

theorem fully_associative_access_raises:
  "valid_config 8 64 0 \<and>
   returned (simulate 8 64 0 ''LRU'' g [0]) = Inl IndexError \<and>
   returned (simulate 8 64 0 ''FIFO'' g [0]) = Inl IndexError \<and>
   returned (simulate 8 64 0 ''RANDOM'' g [0]) = Inl ValueError"
  by (simp add: valid_config_def eval_defs)


subsection \<open>Steps of the policies and of the cache\<close>

lemma list_remove_Inr:
  "list_remove xs x = Inr ys \<Longrightarrow> ys = remove1 x xs \<and> x \<in> set xs"
  by (induction xs arbitrary: ys) (auto split: if_splits sum.splits)

lemma list_remove_member:
  "x \<in> set xs \<Longrightarrow> list_remove xs x = Inr (remove1 x xs)"
  by (induction xs) auto

lemma list_pop_0_Inr:
  "list_pop xs 0 = Inr (y, ys) \<Longrightarrow> xs = y # ys"
  by (cases xs) (auto simp: list_pop_def list_index_def)

lemma list_index_Inr: "list_index xs i = Inr j \<Longrightarrow> j < length xs"
  by (auto simp: list_index_def split: if_splits)

lemma list_index_in_range:
  "0 \<le> i \<Longrightarrow> i < int (length xs) \<Longrightarrow> list_index xs i = Inr (nat i)"
  by (simp add: list_index_def)

lemma randint_Inr:
  "randint g a b = Inr (i, g') \<Longrightarrow> a \<le> i \<and> i \<le> b"
proof -
  assume h: "randint g a b = Inr (i, g')"
  then have ab: "a \<le> b" and i: "i = a + int (g 0) mod (b - a + 1)"
    by (auto simp: randint_def split: if_splits)
  from ab have pos: "0 < b - a + 1" by simp
  have "0 \<le> int (g 0) mod (b - a + 1)" "int (g 0) mod (b - a + 1) < b - a + 1"
    using pos_mod_sign [OF pos] pos_mod_bound [OF pos] by blast+
  with i show ?thesis by linarith
qed

lemma length_move_to_end:
  "x \<in> set xs \<Longrightarrow> length (remove1 x xs @ [x]) = length xs"
  using length_pos_if_in_set [of x xs] by (simp add: length_remove1)

lemma set_move_to_end:
  "x \<in> set xs \<Longrightarrow> set (remove1 x xs @ [x]) = set xs"
proof
  assume "x \<in> set xs"
  then show "set (remove1 x xs @ [x]) \<subseteq> set xs"
    using set_remove1_subset [of x xs] by auto
  show "set xs \<subseteq> set (remove1 x xs @ [x])"
  proof
    fix y assume "y \<in> set xs"
    then show "y \<in> set (remove1 x xs @ [x])"
      by (cases "y = x") (simp_all add: in_set_remove1)
  qed
qed

lemma distinct_move_to_end:
  "distinct xs \<Longrightarrow> distinct (remove1 x xs @ [x])"
  by (simp add: set_remove1_eq)

text \<open>What a successful policy call can have done.\<close>

lemma policy_access_cases:
  assumes "policy_access p blocks tag cap = Inr ((r, ev), blocks', p')"
  shows "(r = HIT \<and> ev = None \<and> tag \<in> set blocks \<and> length blocks' = length blocks \<and>
          set blocks' = set blocks \<and> (distinct blocks \<longrightarrow> distinct blocks')) \<or>
         (r = MISS \<and> ev = None \<and> tag \<notin> set blocks \<and> int (length blocks) < cap \<and>
          blocks' = blocks @ [tag]) \<or>
         (r = MISS \<and> ev \<noteq> None \<and> tag \<notin> set blocks \<and> \<not> int (length blocks) < cap \<and>
          length blocks' = length blocks \<and> (distinct blocks \<longrightarrow> distinct blocks'))"
proof (cases "policy_class p")
  case LRUPolicy
  with assms have a: "LRUPolicy_access p blocks tag cap = Inr ((r, ev), blocks', p')"
    by (simp add: policy_access_def)
  show ?thesis
  proof (cases "tag \<in> set blocks")
    case True
    with a have "r = HIT" "ev = None" "blocks' = remove1 tag blocks @ [tag]"
      by (auto simp: LRUPolicy_access_def Let_def list_remove_member)
    moreover note length_move_to_end [OF True] set_move_to_end [OF True]
      distinct_move_to_end [of blocks tag]
    ultimately show ?thesis using True by blast
  next
    case False
    show ?thesis
    proof (cases "int (length blocks) < cap")
      case True
      with a False show ?thesis
        by (auto simp: LRUPolicy_access_def Let_def)
    next
      case full: False
      with a False obtain y ys where "list_pop blocks 0 = Inr (y, ys)"
        "r = MISS" "ev = Some y" "blocks' = ys @ [tag]"
        by (auto simp: LRUPolicy_access_def Let_def split: sum.splits)
      moreover from this have "blocks = y # ys" by (simp add: list_pop_0_Inr)
      ultimately show ?thesis using False full by auto
    qed
  qed
next
  case FIFOPolicy
  with assms have a: "FIFOPolicy_access p blocks tag cap = Inr ((r, ev), blocks', p')"
    by (simp add: policy_access_def)
  show ?thesis
  proof (cases "tag \<in> set blocks")
    case True
    with a show ?thesis
      by (auto simp: FIFOPolicy_access_def Let_def)
  next
    case False
    show ?thesis
    proof (cases "int (length blocks) < cap")
      case True
      with a False show ?thesis
        by (auto simp: FIFOPolicy_access_def Let_def)
    next
      case full: False
      with a False obtain y ys where "list_pop blocks 0 = Inr (y, ys)"
        "r = MISS" "ev = Some y" "blocks' = ys @ [tag]"
        by (auto simp: FIFOPolicy_access_def Let_def split: sum.splits)
      moreover from this have "blocks = y # ys" by (simp add: list_pop_0_Inr)
      ultimately show ?thesis using False full by auto
    qed
  qed
next
  case (RandomPolicy g)
  with assms have a: "RandomPolicy_access p g blocks tag cap = Inr ((r, ev), blocks', p')"
    by (simp add: policy_access_def)
  show ?thesis
  proof (cases "tag \<in> set blocks")
    case True
    with a show ?thesis
      by (auto simp: RandomPolicy_access_def Let_def)
  next
    case False
    show ?thesis
    proof (cases "int (length blocks) < cap")
      case True
      with a False show ?thesis
        by (auto simp: RandomPolicy_access_def Let_def)
    next
      case full: False
      with a False obtain i g' j y where
        "list_getitem blocks i = Inr (j, y)" "list_setitem blocks i tag = Inr blocks'"
        "r = MISS" "ev = Some y"
        by (auto simp: RandomPolicy_access_def Let_def split: sum.splits)
      then have "r = MISS" "ev \<noteq> None" "\<exists>k. blocks' = blocks[k := tag]"
        by (auto simp: list_setitem_def split: sum.splits)
      then show ?thesis using False full
        by (auto simp: distinct_list_update)
    qed
  qed
qed


lemma policy_access_total:
  assumes "1 \<le> cap"
  shows "\<exists>r ev blocks' p'. policy_access p blocks tag cap = Inr ((r, ev), blocks', p')"
proof (cases "tag \<in> set blocks \<or> int (length blocks) < cap")
  case True
  then show ?thesis
    by (cases "policy_class p")
      (auto simp: policy_access_def LRUPolicy_access_def FIFOPolicy_access_def
         RandomPolicy_access_def Let_def list_remove_member)
next
  case False
  with assms obtain y ys where ne: "blocks = y # ys"
    by (cases blocks) auto
  show ?thesis
  proof (cases "policy_class p")
    case LRUPolicy
    with False ne show ?thesis
      by (simp add: policy_access_def LRUPolicy_access_def Let_def list_pop_head)
  next
    case FIFOPolicy
    with False ne show ?thesis
      by (simp add: policy_access_def FIFOPolicy_access_def Let_def list_pop_head)
  next
    case (RandomPolicy g)
    have le: "(0::int) \<le> int (length blocks) - 1"
      using ne by simp
    then obtain i g' where ri: "randint g 0 (int (length blocks) - 1) = Inr (i, g')"
      by (auto simp: randint_def)
    from randint_Inr [OF this] have "0 \<le> i" "i < int (length blocks)"
      by auto
    then have "list_index blocks i = Inr (nat i)"
      by (rule list_index_in_range)
    with RandomPolicy False ri show ?thesis
      by (simp add: policy_access_def RandomPolicy_access_def Let_def list_getitem_def
          list_setitem_def)
  qed
qed

lemma get_set_index_config:
  "get_set_index (c\<lparr>stats := st\<rparr>) a = get_set_index c a"
  "get_tag (c\<lparr>stats := st\<rparr>) a = get_tag c a"
  by (simp_all add: get_set_index_def get_tag_def cong: sum.case_cong)

text \<open>What a successful access has done.\<close>

lemma access_Inr:
  assumes "access c a = Inr (r, c', out)"
  shows "\<exists>j blocks tag ev blocks' p'.
           lookup c a = Inr (j, blocks, tag) \<and> j < length (sets c) \<and> blocks = sets c ! j \<and>
           policy_access (policy c) blocks tag (associativity (config c)) =
             Inr ((r, ev), blocks', p') \<and>
           config c' = config c \<and> sets c' = (sets c)[j := blocks'] \<and> policy c' = p' \<and>
           stats c' = track ((stats c)\<lparr>accesses := accesses (stats c) + 1\<rparr>) r ev \<and>
           debug_mode c' = debug_mode c"
  using assms
  by (auto simp: access_def lookup_def Let_def get_set_index_config list_getitem_def
      split: sum.splits prod.splits dest: list_index_Inr)

lemma access_total:
  assumes "well_formed c" "1 \<le> associativity (config c)"
  shows "\<exists>r c' out. access c a = Inr (r, c', out)"
proof -
  let ?bs = "block_size_bytes (config c)" and ?ns = "num_sets (config c)"
  from assms have bs: "?bs \<noteq> 0" and ns: "1 \<le> ?ns" and len: "length (sets c) = nat ?ns"
    by (auto simp: well_formed_def)
  have i: "get_set_index c a = Inr (a div ?bs mod ?ns)" "get_tag c a = Inr (a div ?bs div ?ns)"
    using bs ns by (simp_all add: get_set_index_def get_tag_def floordiv_def modulo_def)
  have "0 \<le> a div ?bs mod ?ns" "a div ?bs mod ?ns < int (length (sets c))"
    using ns len by simp_all
  then have g: "list_index (sets c) (a div ?bs mod ?ns) = Inr (nat (a div ?bs mod ?ns))"
    by (rule list_index_in_range)
  obtain r ev blocks' p' where
    "policy_access (policy c) (sets c ! nat (a div ?bs mod ?ns)) (a div ?bs div ?ns)
       (associativity (config c)) = Inr ((r, ev), blocks', p')"
    using policy_access_total [OF assms(2), of "policy c" "sets c ! nat (a div ?bs mod ?ns)"
        "a div ?bs div ?ns"] by blast
  with i g show ?thesis
    by (simp add: access_def Let_def get_set_index_config list_getitem_def)
qed

lemma access_well_formed:
  assumes "access c a = Inr (r, c', out)" "well_formed c"
  shows "well_formed c' \<and> config c' = config c"
  using access_Inr [OF assms(1)] assms(2) by (auto simp: well_formed_def)

lemma access_all_total:
  "well_formed c \<Longrightarrow> 1 \<le> associativity (config c) \<Longrightarrow> \<exists>rs c'. access_all c trace = Inr (rs, c')"
proof (induction trace arbitrary: c)
  case Nil
  then show ?case by simp
next
  case (Cons a trace)
  from access_total [OF Cons.prems] obtain r c1 out where s: "access c a = Inr (r, c1, out)"
    by blast
  from access_well_formed [OF s Cons.prems(1)] Cons.prems(2)
  have "well_formed c1" "1 \<le> associativity (config c1)" by simp_all
  from Cons.IH [OF this] obtain rs c' where "access_all c1 trace = Inr (rs, c')" by blast
  with s show ?case by simp
qed


subsection \<open>Counters and runs\<close>

lemma access_counters:
  assumes "access c a = Inr (r, c', out)"
  shows "accesses (stats c') = accesses (stats c) + 1"
    and "hits (stats c') = hits (stats c) + (if r = HIT then 1 else 0)"
    and "misses (stats c') = misses (stats c) + (if r = MISS then 1 else 0)"
    and "replacements (stats c') =
           replacements (stats c) + (if evicted c a \<noteq> None then 1 else 0)"
    and "evicted c a \<noteq> None \<longleftrightarrow> r = MISS \<and> \<not> had_spare_capacity c a"
proof -
  from access_Inr [OF assms] obtain j blocks tag ev blocks' p' where
    l: "lookup c a = Inr (j, blocks, tag)" and
    p: "policy_access (policy c) blocks tag (associativity (config c)) =
          Inr ((r, ev), blocks', p')" and
    s: "stats c' = track ((stats c)\<lparr>accesses := accesses (stats c) + 1\<rparr>) r ev"
    by blast
  from l p have e: "evicted c a = ev"
    and h: "had_spare_capacity c a \<longleftrightarrow> int (length blocks) < associativity (config c)"
    by (simp_all add: evicted_def had_spare_capacity_def)
  from policy_access_cases [OF p]
  have k: "(r = HIT \<longrightarrow> ev = None)"
    "(ev \<noteq> None \<longleftrightarrow> r = MISS \<and> \<not> int (length blocks) < associativity (config c))"
    by auto
  from s show "accesses (stats c') = accesses (stats c) + 1"
    by (simp add: track_def Let_def)
  from s show "hits (stats c') = hits (stats c) + (if r = HIT then 1 else 0)"
    by (simp add: track_def Let_def)
  from s show "misses (stats c') = misses (stats c) + (if r = MISS then 1 else 0)"
    by (cases r) (simp_all add: track_def Let_def)
  from s k(1) show "replacements (stats c') =
           replacements (stats c) + (if evicted c a \<noteq> None then 1 else 0)"
    unfolding e by (cases r) (auto simp: track_def Let_def)
  from k(2) show "evicted c a \<noteq> None \<longleftrightarrow> r = MISS \<and> \<not> had_spare_capacity c a"
    unfolding e h .
qed

lemma access_all_counters:
  "access_all c trace = Inr (rs, c') \<Longrightarrow>
     length rs = length trace \<and>
     accesses (stats c') = accesses (stats c) + int (length trace) \<and>
     hits (stats c') = hits (stats c) + int (count_list rs HIT) \<and>
     misses (stats c') = misses (stats c) + int (count_list rs MISS) \<and>
     replacements (stats c') = replacements (stats c) + evictions c trace \<and>
     evictions c trace = int (count_list rs MISS) - spare_capacity_misses c trace"
proof (induction trace arbitrary: c rs)
  case Nil
  then show ?case by auto
next
  case (Cons a trace)
  from Cons.prems obtain r c1 out rs1 where
    s: "access c a = Inr (r, c1, out)" and t: "access_all c1 trace = Inr (rs1, c')" and
    rs: "rs = r # rs1"
    by (auto split: sum.splits)
  note ih = Cons.IH [OF t]
  note st = access_counters [OF s]
  show ?case
    using ih st s unfolding rs
    by (cases r) auto
qed

lemma new_cache_Inr:
  assumes "new_cache kb bs assoc pn g = Inr c"
  shows "bs \<noteq> 0"
    and "config c = \<lparr>cache_size_kb = kb, block_size_bytes = bs, associativity = assoc,
           cache_size_bytes = kb * 1024, num_blocks = kb * 1024 div bs,
           num_sets = (if assoc = 0 then 1 else kb * 1024 div bs div assoc)\<rparr>"
    and "stats c = \<lparr>accesses = 0, hits = 0, misses = 0, replacements = 0\<rparr>"
    and "sets c = replicate (nat (num_sets (config c))) []"
    and "policy c = fst (setup_policy pn g)"
    and "debug_mode c = False"
proof -
  show bs: "bs \<noteq> 0"
    using assms by (auto simp: new_cache_def CacheConfig_init_zero)
  from assms have c: "c = fst (Cache_init \<lparr>cache_size_kb = kb, block_size_bytes = bs, associativity = assoc,
           cache_size_bytes = kb * 1024, num_blocks = kb * 1024 div bs,
           num_sets = (if assoc = 0 then 1 else kb * 1024 div bs div assoc)\<rparr> pn g)"
    by (simp add: new_cache_def CacheConfig_init_nonzero [OF bs])
  show "config c = \<lparr>cache_size_kb = kb, block_size_bytes = bs, associativity = assoc,
           cache_size_bytes = kb * 1024, num_blocks = kb * 1024 div bs,
           num_sets = (if assoc = 0 then 1 else kb * 1024 div bs div assoc)\<rparr>"
    unfolding c by (simp add: Cache_init_def split: prod.splits)
  show "stats c = \<lparr>accesses = 0, hits = 0, misses = 0, replacements = 0\<rparr>"
    unfolding c by (simp add: Cache_init_def split: prod.splits)
  show "sets c = replicate (nat (num_sets (config c))) []"
    unfolding c by (simp add: Cache_init_def split: prod.splits)
  show "policy c = fst (setup_policy pn g)"
    unfolding c by (simp add: Cache_init_def split: prod.splits)
  show "debug_mode c = False"
    unfolding c by (simp add: Cache_init_def split: prod.splits)
qed

lemma new_cache_nonzero:
  "bs \<noteq> 0 \<Longrightarrow> \<exists>c. new_cache kb bs assoc pn g = Inr c"
  by (simp add: new_cache_def CacheConfig_init_nonzero)

lemma valid_config_num_sets:
  assumes "valid_config kb bs assoc"
  shows "1 \<le> (if assoc = 0 then 1 else kb * 1024 div bs div assoc)"
proof (cases "assoc = 0")
  case True
  then show ?thesis by simp
next
  case False
  with assms have "0 < assoc" "assoc \<le> kb * 1024 div bs"
    by (auto simp: valid_config_def)
  then have "0 < kb * 1024 div bs div assoc"
    by (simp add: pos_imp_zdiv_pos_iff)
  with False show ?thesis by simp
qed

lemma new_cache_valid:
  assumes "valid_config kb bs assoc"
  shows "\<exists>c. new_cache kb bs assoc pn g = Inr c \<and> well_formed c \<and>
             associativity (config c) = assoc"
proof -
  from assms have bs: "bs \<noteq> 0" by (auto simp: valid_config_def)
  then obtain c where c: "new_cache kb bs assoc pn g = Inr c"
    using new_cache_nonzero by blast
  note f = new_cache_Inr [OF c]
  from valid_config_num_sets [OF assms] have "well_formed c"
    using bs by (simp add: well_formed_def f(2) f(4))
  with c f(2) show ?thesis by simp
qed


lemma simulate_total:
  assumes "valid_config kb bs assoc" "1 \<le> assoc"
  shows "\<exists>rs c. simulate kb bs assoc pn g trace = Inr (rs, c)"
proof -
  from new_cache_valid [OF assms(1)] obtain c0 where
    c0: "new_cache kb bs assoc pn g = Inr c0" "well_formed c0" "associativity (config c0) = assoc"
    by blast
  with assms(2) access_all_total [of c0 trace] show ?thesis
    by (simp add: simulate_def)
qed

subsection \<open>The replacement counter\<close>

text \<open>
  C7. After a run of accesses on a freshly built cache, \<open>replacements\<close> equals the number
  of misses minus the number of misses that found spare capacity in their set, which is
  the number of accesses on which the policy reported an evicted tag; on each single
  access \<open>replacements\<close> grows by one exactly when the policy reports an evicted tag,
  which it does exactly on a miss without spare capacity. For a valid configuration with
  \<open>associativity \<ge> 1\<close> every run does complete.
\<close>

theorem replacements_counter:
  "(new_cache kb bs assoc pn g = Inr c0 \<and> access_all c0 trace = Inr (rs, c) \<longrightarrow>
      misses (stats c) = int (count_list rs MISS) \<and>
      replacements (stats c) = misses (stats c) - spare_capacity_misses c0 trace \<and>
      replacements (stats c) = evictions c0 trace) \<and>
   (access c1 a = Inr (r, c2, out) \<longrightarrow>
      replacements (stats c2) =
        replacements (stats c1) + (if evicted c1 a \<noteq> None then 1 else 0) \<and>
      (evicted c1 a \<noteq> None \<longleftrightarrow> r = MISS \<and> \<not> had_spare_capacity c1 a)) \<and>
   (valid_config kb bs assoc \<and> 1 \<le> assoc \<longrightarrow>
      (\<exists>rs c. simulate kb bs assoc pn g trace = Inr (rs, c)))"
proof (intro conjI impI)
  assume h: "new_cache kb bs assoc pn g = Inr c0 \<and> access_all c0 trace = Inr (rs, c)"
  then have z: "stats c0 = \<lparr>accesses = 0, hits = 0, misses = 0, replacements = 0\<rparr>"
    using new_cache_Inr(3) [of kb bs assoc pn g c0] by blast
  from h have k: "misses (stats c) = misses (stats c0) + int (count_list rs MISS)"
    "replacements (stats c) = replacements (stats c0) + evictions c0 trace"
    "evictions c0 trace = int (count_list rs MISS) - spare_capacity_misses c0 trace"
    using access_all_counters [of c0 trace rs c] by simp_all
  from k z show "misses (stats c) = int (count_list rs MISS)" by simp
  from k z show "replacements (stats c) = misses (stats c) - spare_capacity_misses c0 trace"
    by simp
  from k z show "replacements (stats c) = evictions c0 trace" by simp
next
  assume s: "access c1 a = Inr (r, c2, out)"
  from access_counters(4) [OF s]
  show "replacements (stats c2) =
        replacements (stats c1) + (if evicted c1 a \<noteq> None then 1 else 0)" .
  from access_counters(5) [OF s]
  show "evicted c1 a \<noteq> None \<longleftrightarrow> r = MISS \<and> \<not> had_spare_capacity c1 a" .
next
  assume "valid_config kb bs assoc \<and> 1 \<le> assoc"
  then show "\<exists>rs c. simulate kb bs assoc pn g trace = Inr (rs, c)"
    using simulate_total by blast
qed

theorem replacements_counter_witness:
  "valid_config 1 512 2 \<and>
   (\<exists>c0 c. new_cache 1 512 2 ''LRU'' (constant_generator 0) = Inr c0 \<and>
      access_all c0 [0, 512, 0, 1024] = Inr ([MISS, MISS, HIT, MISS], c) \<and>
      misses (stats c) = 3 \<and> replacements (stats c) = 1 \<and>
      spare_capacity_misses c0 [0, 512, 0, 1024] = 2 \<and>
      evictions c0 [0, 512, 0, 1024] = 1)"
proof -
  let ?g = "constant_generator 0" and ?t = "[0, 512, 0, 1024] :: int list"
  have v: "valid_config 1 512 2"
    by (simp add: valid_config_def)
  obtain c0 where c0: "new_cache 1 512 2 ''LRU'' ?g = Inr c0"
    using new_cache_nonzero [of 512 1 2 "''LRU''" ?g] by auto
  have "\<exists>c. simulate 1 512 2 ''LRU'' ?g ?t = Inr ([MISS, MISS, HIT, MISS], c) \<and>
          replacements (stats c) = 1"
    by (simp add: eval_defs)
  then obtain c where c: "access_all c0 ?t = Inr ([MISS, MISS, HIT, MISS], c)"
    and r: "replacements (stats c) = 1"
    using c0 by (auto simp: simulate_def)
  have t: "misses (stats c) = int (count_list [MISS, MISS, HIT, MISS] MISS)"
    "replacements (stats c) = misses (stats c) - spare_capacity_misses c0 ?t"
    "replacements (stats c) = evictions c0 ?t"
    using replacements_counter [of 1 512 2 "''LRU''" ?g c0 ?t "[MISS, MISS, HIT, MISS]" c]
      c0 c by blast+
  from t(1) have m: "misses (stats c) = 3" by simp
  from t(2) m r have sp: "spare_capacity_misses c0 ?t = 2" by linarith
  from t(3) r have ev: "evictions c0 ?t = 1" by linarith
  from v c0 c r m sp ev show ?thesis by blast
qed

lemma access_sets_bounded_distinct:
  assumes "access c a = Inr (r, c', out)" "sets_bounded_distinct c"
  shows "sets_bounded_distinct c'"
proof -
  from access_Inr [OF assms(1)] obtain j blocks tag ev blocks' p' where
    j: "j < length (sets c)" and b: "blocks = sets c ! j" and
    p: "policy_access (policy c) blocks tag (associativity (config c)) =
          Inr ((r, ev), blocks', p')" and
    cfg: "config c' = config c" and s: "sets c' = (sets c)[j := blocks']"
    by blast
  from j b have "blocks \<in> set (sets c)" by simp
  with assms(2) have ok: "int (length blocks) \<le> associativity (config c)" "distinct blocks"
    by (auto simp: sets_bounded_distinct_def)
  from policy_access_cases [OF p] ok
  have ok': "int (length blocks') \<le> associativity (config c)" "distinct blocks'"
    by auto
  show ?thesis
    unfolding sets_bounded_distinct_def cfg s
  proof
    fix x assume "x \<in> set ((sets c)[j := blocks'])"
    then have "x = blocks' \<or> x \<in> set (sets c)"
      using set_update_subset_insert [of "sets c" j blocks'] by auto
    with ok' assms(2)
    show "int (length x) \<le> associativity (config c) \<and> distinct x"
      by (auto simp: sets_bounded_distinct_def)
  qed
qed

lemma access_all_sets_bounded_distinct:
  "access_all c trace = Inr (rs, c') \<Longrightarrow> sets_bounded_distinct c \<Longrightarrow>
   sets_bounded_distinct c' \<and> config c' = config c"
proof (induction trace arbitrary: c rs)
  case Nil
  then show ?case by simp
next
  case (Cons a trace)
  from Cons.prems(1) obtain r c1 out rs1 where
    s: "access c a = Inr (r, c1, out)" and t: "access_all c1 trace = Inr (rs1, c')"
    by (auto split: sum.splits)
  from access_sets_bounded_distinct [OF s Cons.prems(2)]
  have "sets_bounded_distinct c1" .
  from Cons.IH [OF t this] access_Inr [OF s] show ?case by auto
qed

subsection \<open>The set invariant\<close>

text \<open>
  C9. For a valid configuration with \<open>associativity \<ge> 1\<close> and any policy selector and
  generator, the fresh cache and the cache after any run have sets of at most
  \<open>associativity\<close> pairwise distinct tags, and every run completes; each successful
  access, on any cache whatever, preserves that invariant.
\<close>

theorem sets_invariant:
  "(valid_config kb bs assoc \<and> 1 \<le> assoc \<longrightarrow>
      (\<exists>c0 rs c. new_cache kb bs assoc pn g = Inr c0 \<and> sets_bounded_distinct c0 \<and>
         access_all c0 trace = Inr (rs, c) \<and> sets_bounded_distinct c \<and>
         associativity (config c) = assoc)) \<and>
   (sets_bounded_distinct c1 \<and> access c1 a = Inr (r, c2, out) \<longrightarrow>
      sets_bounded_distinct c2 \<and> associativity (config c2) = associativity (config c1))"
proof (intro conjI impI)
  assume v: "valid_config kb bs assoc \<and> 1 \<le> assoc"
  from new_cache_valid [of kb bs assoc pn g] v obtain c0 where
    c0: "new_cache kb bs assoc pn g = Inr c0" "well_formed c0" "associativity (config c0) = assoc"
    by blast
  have i: "sets_bounded_distinct c0"
    using v c0(3) by (simp add: sets_bounded_distinct_def new_cache_Inr(4) [OF c0(1)])
  from access_all_total [of c0 trace] c0 v obtain rs c where
    r: "access_all c0 trace = Inr (rs, c)" by auto
  from access_all_sets_bounded_distinct [OF r i] c0 r i
  show "\<exists>c0 rs c. new_cache kb bs assoc pn g = Inr c0 \<and> sets_bounded_distinct c0 \<and>
         access_all c0 trace = Inr (rs, c) \<and> sets_bounded_distinct c \<and>
         associativity (config c) = assoc"
    by auto
next
  assume h: "sets_bounded_distinct c1 \<and> access c1 a = Inr (r, c2, out)"
  then show "sets_bounded_distinct c2"
    using access_sets_bounded_distinct by blast
  from h access_Inr [of c1 a r c2 out]
  show "associativity (config c2) = associativity (config c1)" by auto
qed

theorem sets_invariant_witness:
  "valid_config 1 512 2 \<and> (1::int) \<le> 2 \<and>
   (\<exists>c0 rs c. new_cache 1 512 2 ''RANDOM'' (constant_generator 1) = Inr c0 \<and>
      sets_bounded_distinct c0 \<and>
      access_all c0 [0, 512, 0, 1024, 2048] = Inr (rs, c) \<and> sets_bounded_distinct c \<and>
      associativity (config c) = 2 \<and> sets c = [[0, 4]])"
proof -
  let ?g = "constant_generator 1" and ?t = "[0, 512, 0, 1024, 2048] :: int list"
  have v: "valid_config 1 512 2 \<and> (1::int) \<le> 2"
    by (simp add: valid_config_def)
  from sets_invariant [of 1 512 2 "''RANDOM''" ?g ?t] v obtain c0 rs c where
    c: "new_cache 1 512 2 ''RANDOM'' ?g = Inr c0" "sets_bounded_distinct c0"
      "access_all c0 ?t = Inr (rs, c)" "sets_bounded_distinct c" "associativity (config c) = 2"
    by blast
  have "\<exists>rs c. simulate 1 512 2 ''RANDOM'' ?g ?t = Inr (rs, c) \<and> sets c = [[0, 4]]"
    by (simp add: eval_defs)
  with c(1,3) have "sets c = [[0, 4]]"
    by (auto simp: simulate_def)
  with v c show ?thesis by blast
qed


subsection \<open>Address breakdown\<close>

text \<open>
  C5 as stated calls \<open>get_address_breakdown\<close> free of side effects. It is not: every
  call prints one line. For the 8 KB, 64-byte, 2-way configuration and address 4160:
\<close>

theorem address_breakdown_prints_counterexample:
  "get_address_breakdown (fst (projr (CacheConfig_init 8 64 2))) 4160 =
     Inr ((1, 1), [AddressLine 4160 65 1 1]) \<and>
   printed (get_address_breakdown (fst (projr (CacheConfig_init 8 64 2))) 4160) \<noteq> []"
  by (simp add: CacheConfig_init_def get_address_breakdown_def floordiv_def modulo_def
      printed_def Let_def)

text \<open>
  C5, amended. \<open>get_address_breakdown\<close> prints one diagnostic line (address, block, set,
  tag) on every call. Apart from that output it is a function of the address and the
  configuration alone, which it does not change: with
  \<open>block_number = address div block_size_bytes\<close> it returns
  \<open>(block_number mod num_sets, block_number div num_sets)\<close>, for every integer address,
  whenever block size and number of sets are not zero, as they are for every valid
  configuration. The cache's own derivation (\<open>_get_set_index\<close>, \<open>_get_tag\<close>) returns the
  same pair, and raises where \<open>get_address_breakdown\<close> raises.
\<close>

theorem address_breakdown:
  "(block_size_bytes cfg \<noteq> 0 \<and> num_sets cfg \<noteq> 0 \<longrightarrow>
      get_address_breakdown cfg a =
        Inr ((a div block_size_bytes cfg mod num_sets cfg,
              a div block_size_bytes cfg div num_sets cfg),
             [AddressLine a (a div block_size_bytes cfg)
                (a div block_size_bytes cfg mod num_sets cfg)
                (a div block_size_bytes cfg div num_sets cfg)])) \<and>
   cache_breakdown c a = returned (get_address_breakdown (config c) a) \<and>
   (valid_config kb bs assoc \<longrightarrow>
      (\<exists>cfg' out. CacheConfig_init kb bs assoc = Inr (cfg', out) \<and>
         block_size_bytes cfg' \<noteq> 0 \<and> num_sets cfg' \<noteq> 0))"
proof (intro conjI impI)
  assume "block_size_bytes cfg \<noteq> 0 \<and> num_sets cfg \<noteq> 0"
  then show "get_address_breakdown cfg a =
        Inr ((a div block_size_bytes cfg mod num_sets cfg,
              a div block_size_bytes cfg div num_sets cfg),
             [AddressLine a (a div block_size_bytes cfg)
                (a div block_size_bytes cfg mod num_sets cfg)
                (a div block_size_bytes cfg div num_sets cfg)])"
    by (simp add: get_address_breakdown_def floordiv_def modulo_def)
next
  show "cache_breakdown c a = returned (get_address_breakdown (config c) a)"
    by (simp add: cache_breakdown_def get_address_breakdown_def get_set_index_def
        get_tag_def floordiv_def modulo_def returned_def)
next
  assume v: "valid_config kb bs assoc"
  then have "bs \<noteq> 0" by (auto simp: valid_config_def)
  with valid_config_num_sets [OF v]
  show "\<exists>cfg' out. CacheConfig_init kb bs assoc = Inr (cfg', out) \<and>
         block_size_bytes cfg' \<noteq> 0 \<and> num_sets cfg' \<noteq> 0"
    by (auto simp: CacheConfig_init_nonzero)
qed

theorem address_breakdown_witness:
  "valid_config 8 64 2 \<and>
   (\<exists>cfg out. CacheConfig_init 8 64 2 = Inr (cfg, out) \<and>
      block_size_bytes cfg \<noteq> 0 \<and> num_sets cfg \<noteq> 0 \<and>
      get_address_breakdown cfg 4160 = Inr ((1, 1), [AddressLine 4160 65 1 1]) \<and>
      cache_breakdown (fst (Cache_init cfg ''LRU'' (constant_generator 0))) 4160 = Inr (1, 1))"
proof -
  have v: "valid_config 8 64 2"
    by (simp add: valid_config_def)
  from address_breakdown [of _ _ _ 8 64 2] v obtain cfg out where
    c: "CacheConfig_init 8 64 2 = Inr (cfg, out)" "block_size_bytes cfg \<noteq> 0"
      "num_sets cfg \<noteq> 0"
    by blast
  from c(1) have f: "block_size_bytes cfg = 64" "num_sets cfg = 64"
    by (auto simp: CacheConfig_init_nonzero)
  let ?c = "fst (Cache_init cfg ''LRU'' (constant_generator 0))"
  have cc: "config ?c = cfg"
    by (simp add: Cache_init_def split: prod.splits)
  from address_breakdown [of cfg 4160 ?c] c(2,3)
  have "get_address_breakdown cfg 4160 = Inr ((1, 1), [AddressLine 4160 65 1 1])"
    "cache_breakdown ?c 4160 = returned (get_address_breakdown cfg 4160)"
    unfolding cc by (simp_all add: f)
  then have "get_address_breakdown cfg 4160 = Inr ((1, 1), [AddressLine 4160 65 1 1])"
    "cache_breakdown ?c 4160 = Inr (1, 1)"
    by (simp_all add: returned_def)
  with v c show ?thesis by blast
qed


subsection \<open>Statistics\<close>











subsection \<open>Policy selection\<close>








subsection \<open>Construction without validation\<close>

lemma policy_access_empty_full:
  assumes "cap \<le> 0"
  shows "\<exists>e. policy_access p [] tag cap = Inl e"
  using assms
  by (cases "policy_class p")
    (simp_all add: policy_access_def LRUPolicy_access_def FIFOPolicy_access_def
       RandomPolicy_access_def Let_def list_pop_empty randint_def)

lemma failure_if_no_success:
  "(\<And>v. r \<noteq> Inr v) \<Longrightarrow> \<exists>e. r = Inl e"
  by (cases r) auto


lemma access_fails_on_empty_full_set:
  assumes "associativity (config c) \<le> 0" and "\<forall>blocks \<in> set (sets c). blocks = []"
  shows "\<exists>e. access c a = Inl e"
proof (rule failure_if_no_success)
  fix v
  show "access c a \<noteq> Inr v"
  proof
    assume "access c a = Inr v"
    then obtain r c' out where "access c a = Inr (r, c', out)"
      by (cases v) auto
    from access_Inr [OF this] obtain j blocks tag ev blocks' p' where
      j: "j < length (sets c)" "blocks = sets c ! j" and
      p: "policy_access (policy c) blocks tag (associativity (config c)) =
            Inr ((r, ev), blocks', p')"
      by blast
    from j assms(2) have "blocks = []" by simp
    with p policy_access_empty_full [OF assms(1), of "policy c" tag] show False by auto
  qed
qed

text \<open>The sentinel: every access on a freshly built fully-associative cache raises.\<close>

lemma sentinel_access_fails:
  assumes "new_cache kb bs 0 pn g = Inr c"
  shows "\<exists>e. access c a = Inl e"
proof -
  note f = new_cache_Inr [OF assms]
  show ?thesis
    by (rule access_fails_on_empty_full_set) (simp_all add: f(2) f(4))
qed






end
